theory Spec2Isabelle
  imports Main "HOL-Library.Multiset"
begin

section \<open>BoxPacker: articles, boxes and the largest differencing method\<close>

text \<open>
  A shallow embedding of \<^verbatim>\<open>src/BoxPacker.py\<close> (classes Article, Box, BoxPacker) and of
  the function \<^verbatim>\<open>greedy\<close> of \<^verbatim>\<open>src/Benchmark.py\<close>. The spec's Item is the class
  Article, its Container the class Box, its Container-set a Python list of boxes, and
  its errors InvalidWeight and InvalidContainerCount are the two ValueErrors below.
\<close>

subsection \<open>Errors\<close>

text \<open>
  Every exception the modelled code can raise. The two explicit \<^verbatim>\<open>raise ValueError(...)\<close>
  statements carry the offending number in their message; the other two are raised by
  the Python runtime (\<^verbatim>\<open>min([])\<close>, and indexing or popping an empty list).
\<close>

datatype error =
    ValueError_weight int
  | ValueError_number_of_boxes int
  | ValueError_empty_sequence
  | IndexError

subsection \<open>Article\<close>

text \<open>
  An Article object has one private attribute, \<^verbatim>\<open>__weight_in_grams\<close>, set once by the
  constructor; the class has no method that assigns it. Python objects also have an
  identity, which is what tells two articles of the same weight apart: it is the
  field \<open>object_id\<close>, chosen by the runtime and never looked at by the code.
\<close>

datatype article = Article (object_id: nat) (get_weight_in_grams: int)

definition Article_init :: "nat \<Rightarrow> int \<Rightarrow> error + article" where
  "Article_init oid weight_in_grams =
     (if weight_in_grams > 0 then Inr (Article oid weight_in_grams)
      else Inl (ValueError_weight weight_in_grams))"

subsection \<open>Box\<close>

record box =
  box_items :: "article list"
  total_weight_in_grams :: int

definition Box_init :: "article list \<Rightarrow> box" where
  "Box_init items =
     \<lparr>box_items = items,
      total_weight_in_grams = sum_list (map get_weight_in_grams items)\<rparr>"

definition add_article :: "box \<Rightarrow> article \<Rightarrow> box" where
  "add_article b a =
     \<lparr>box_items = box_items b @ [a],
      total_weight_in_grams = total_weight_in_grams b + get_weight_in_grams a\<rparr>"

definition get_box_items :: "box \<Rightarrow> article list" where
  "get_box_items b = box_items b"

definition get_total_weight_in_grams :: "box \<Rightarrow> int" where
  "get_total_weight_in_grams b = total_weight_in_grams b"

definition combine_with_other_box :: "box \<Rightarrow> box \<Rightarrow> box" where
  "combine_with_other_box b box2 = Box_init (box_items b @ get_box_items box2)"

definition combine :: "box \<Rightarrow> box \<Rightarrow> box" where
  "combine box1 box2 = Box_init (get_box_items box1 @ get_box_items box2)"

definition box_lt :: "box \<Rightarrow> box \<Rightarrow> bool" where
  "box_lt b other \<longleftrightarrow> total_weight_in_grams b < total_weight_in_grams other"

text \<open>
  The class invariant of Box: the cached total is the sum of the weights of the items.
\<close>

definition box_inv :: "box \<Rightarrow> bool" where
  "box_inv b \<longleftrightarrow> total_weight_in_grams b = sum_list (map get_weight_in_grams (box_items b))"

subsection \<open>Article, list and Box objects in a store\<close>

text \<open>
  Python passes objects by reference, and \<^verbatim>\<open>Box.__init__\<close> keeps the list it is given
  (\<^verbatim>\<open>self.__box_items = box_items\<close>, no copy): two boxes built on the same list, or a
  box and its caller, share one list object. To state what a call changes and what it
  leaves alone, the objects live in a store, and a reference is the index of the object
  among the objects of its class, in order of creation:
  \<^item> an Article object is its attribute \<^verbatim>\<open>__weight_in_grams\<close>;
  \<^item> a list object is the list of the references of the articles it holds;
  \<^item> a Box object is the reference of its list \<^verbatim>\<open>__box_items\<close> and its attribute
    \<^verbatim>\<open>__total_weight_in_grams\<close>.
  A call that names an object that does not exist has no counterpart in Python and is
  \<open>None\<close>. In a store that is \<open>store_ok\<close> every reference held by an object is the
  reference of an object of the store.
\<close>

record box_obj =
  box_items_ref :: nat
  cached_total :: int

record store =
  article_objs :: "int list"
  list_objs :: "nat list list"
  box_objs :: "box_obj list"

definition empty_store :: store where
  "empty_store = \<lparr>article_objs = [], list_objs = [], box_objs = []\<rparr>"

definition store_ok :: "store \<Rightarrow> bool" where
  "store_ok s \<longleftrightarrow>
     list_all (list_all (\<lambda>r. r < length (article_objs s))) (list_objs s) \<and>
     list_all (\<lambda>bo. box_items_ref bo < length (list_objs s)) (box_objs s)"

text \<open>
  What the objects stand for: the article, the list of articles and the box of the
  sections above (the identity of an article is its reference).
\<close>

definition article_of :: "store \<Rightarrow> nat \<Rightarrow> article" where
  "article_of s r = Article r (article_objs s ! r)"

definition items_of :: "store \<Rightarrow> nat \<Rightarrow> article list" where
  "items_of s l = map (article_of s) (list_objs s ! l)"

definition box_of :: "store \<Rightarrow> nat \<Rightarrow> box" where
  "box_of s b =
     \<lparr>box_items = items_of s (box_items_ref (box_objs s ! b)),
      total_weight_in_grams = cached_total (box_objs s ! b)\<rparr>"

text \<open>
  The constructor and the getter of Article, a list display \<^verbatim>\<open>[a, b, ...]\<close> and
  \<^verbatim>\<open>list.append\<close>, and the constructor and the methods of Box. \<^verbatim>\<open>add_article\<close> appends
  to the list object of the box, whoever else holds it, and adds the weight to the
  total of this box only. \<^verbatim>\<open>get_box_items\<close> returns the list object itself. The \<^verbatim>\<open>+\<close>
  of two lists in \<^verbatim>\<open>Box.combine\<close> creates a new list object.
\<close>

definition Article_new :: "store \<Rightarrow> int \<Rightarrow> error + nat \<times> store" where
  "Article_new s weight_in_grams =
     (case Article_init (length (article_objs s)) weight_in_grams of
        Inl e \<Rightarrow> Inl e
      | Inr a \<Rightarrow>
          Inr (object_id a, s\<lparr>article_objs := article_objs s @ [get_weight_in_grams a]\<rparr>))"

definition get_weight_in_grams_ref :: "store \<Rightarrow> nat \<Rightarrow> int option" where
  "get_weight_in_grams_ref s r =
     (if r < length (article_objs s) then Some (article_objs s ! r) else None)"

definition list_new :: "store \<Rightarrow> nat list \<Rightarrow> (nat \<times> store) option" where
  "list_new s rs =
     (if list_all (\<lambda>r. r < length (article_objs s)) rs
      then Some (length (list_objs s), s\<lparr>list_objs := list_objs s @ [rs]\<rparr>)
      else None)"

definition list_append :: "store \<Rightarrow> nat \<Rightarrow> nat \<Rightarrow> store option" where
  "list_append s l r =
     (if l < length (list_objs s) \<and> r < length (article_objs s)
      then Some (s\<lparr>list_objs := (list_objs s)[l := list_objs s ! l @ [r]]\<rparr>)
      else None)"

definition Box_new :: "store \<Rightarrow> nat \<Rightarrow> (nat \<times> store) option" where
  "Box_new s l =
     (if l < length (list_objs s)
      then Some (length (box_objs s),
                 s\<lparr>box_objs := box_objs s @
                      [\<lparr>box_items_ref = l,
                        cached_total = sum_list (map get_weight_in_grams (items_of s l))\<rparr>]\<rparr>)
      else None)"

definition add_article_ref :: "store \<Rightarrow> nat \<Rightarrow> nat \<Rightarrow> store option" where
  "add_article_ref s b r =
     (if b < length (box_objs s) \<and> r < length (article_objs s)
      then (case list_append s (box_items_ref (box_objs s ! b)) r of
              None \<Rightarrow> None
            | Some s1 \<Rightarrow>
                Some (s1\<lparr>box_objs := (box_objs s1)
                        [b := (box_objs s1 ! b)
                           \<lparr>cached_total := cached_total (box_objs s1 ! b) +
                              get_weight_in_grams (article_of s1 r)\<rparr>]\<rparr>))
      else None)"

definition get_box_items_ref :: "store \<Rightarrow> nat \<Rightarrow> nat option" where
  "get_box_items_ref s b =
     (if b < length (box_objs s) then Some (box_items_ref (box_objs s ! b)) else None)"

definition get_total_weight_in_grams_ref :: "store \<Rightarrow> nat \<Rightarrow> int option" where
  "get_total_weight_in_grams_ref s b =
     (if b < length (box_objs s) then Some (cached_total (box_objs s ! b)) else None)"

definition combine_ref :: "store \<Rightarrow> nat \<Rightarrow> nat \<Rightarrow> (nat \<times> store) option" where
  "combine_ref s box1 box2 =
     (case (get_box_items_ref s box1, get_box_items_ref s box2) of
        (Some l1, Some l2) \<Rightarrow>
          (if l1 < length (list_objs s) \<and> l2 < length (list_objs s)
           then (case list_new s (list_objs s ! l1 @ list_objs s ! l2) of
                   None \<Rightarrow> None
                 | Some (l, s1) \<Rightarrow> Box_new s1 l)
           else None)
      | _ \<Rightarrow> None)"

text \<open>
  A client of the two classes is a sequence of calls. \<open>exec\<close> is the store after a
  call. The calls that only read (the getters, \<^verbatim>\<open>__str__\<close>, \<^verbatim>\<open>__repr__\<close>, \<^verbatim>\<open>__lt__\<close>)
  return a value computed from the attributes and assign nothing; a constructor of
  Article that raises leaves the store as it was. \<^verbatim>\<open>combine_with_other_box\<close> evaluates
  the same expression as \<^verbatim>\<open>Box.combine\<close>. \<open>BoxPacker.pack\<close> and \<open>greedy\<close> act on
  articles and boxes through these calls only, and the attributes are private to the
  classes (their names start with two underscores).
\<close>

datatype call =
    Call_Article int
  | Call_Article_get_weight_in_grams nat
  | Call_Article_str nat
  | Call_Article_repr nat
  | Call_list "nat list"
  | Call_list_append nat nat
  | Call_Box nat
  | Call_Box_add_article nat nat
  | Call_Box_get_box_items nat
  | Call_Box_get_total_weight_in_grams nat
  | Call_Box_str nat
  | Call_Box_repr nat
  | Call_Box_combine_with_other_box nat nat
  | Call_Box_combine nat nat
  | Call_Box_lt nat nat

fun exec :: "call \<Rightarrow> store \<Rightarrow> store option" where
  "exec (Call_Article w) s = (case Article_new s w of Inl e \<Rightarrow> Some s | Inr (r, s') \<Rightarrow> Some s')"
| "exec (Call_Article_get_weight_in_grams r) s = (if r < length (article_objs s) then Some s else None)"
| "exec (Call_Article_str r) s = (if r < length (article_objs s) then Some s else None)"
| "exec (Call_Article_repr r) s = (if r < length (article_objs s) then Some s else None)"
| "exec (Call_list rs) s = map_option snd (list_new s rs)"
| "exec (Call_list_append l r) s = list_append s l r"
| "exec (Call_Box l) s = map_option snd (Box_new s l)"
| "exec (Call_Box_add_article b r) s = add_article_ref s b r"
| "exec (Call_Box_get_box_items b) s = (if b < length (box_objs s) then Some s else None)"
| "exec (Call_Box_get_total_weight_in_grams b) s = (if b < length (box_objs s) then Some s else None)"
| "exec (Call_Box_str b) s = (if b < length (box_objs s) then Some s else None)"
| "exec (Call_Box_repr b) s = (if b < length (box_objs s) then Some s else None)"
| "exec (Call_Box_combine_with_other_box b box2) s = map_option snd (combine_ref s b box2)"
| "exec (Call_Box_combine box1 box2) s = map_option snd (combine_ref s box1 box2)"
| "exec (Call_Box_lt b other) s =
     (if b < length (box_objs s) \<and> other < length (box_objs s) then Some s else None)"

fun run :: "call list \<Rightarrow> store \<Rightarrow> store option" where
  "run [] s = Some s"
| "run (c # cs) s = (case exec c s of None \<Rightarrow> None | Some s' \<Rightarrow> run cs s')"

subsection \<open>The heap queue of the Python library\<close>

text \<open>
  \<^verbatim>\<open>heapq\<close> keeps a binary min-heap in a Python list. The functions follow
  \<^verbatim>\<open>Lib/heapq.py\<close>; \<open>lt\<close> is the \<^verbatim>\<open><\<close> of the elements. The two sift functions are
  private to the library and are only called with \<open>pos < length heap\<close>.
\<close>

function siftdown_loop :: "('a \<Rightarrow> 'a \<Rightarrow> bool) \<Rightarrow> 'a list \<Rightarrow> nat \<Rightarrow> nat \<Rightarrow> 'a \<Rightarrow> 'a list" where
  "siftdown_loop lt heap startpos pos newitem =
     (if pos > startpos then
        (let parentpos = (pos - 1) div 2;
             parent = heap ! parentpos
         in if lt newitem parent
            then siftdown_loop lt (heap[pos := parent]) startpos parentpos newitem
            else heap[pos := newitem])
      else heap[pos := newitem])"
  by pat_completeness auto
termination
  by (relation "measure (\<lambda>(lt, heap, startpos, pos, newitem). pos)") auto

declare siftdown_loop.simps [simp del]

definition siftdown :: "('a \<Rightarrow> 'a \<Rightarrow> bool) \<Rightarrow> 'a list \<Rightarrow> nat \<Rightarrow> nat \<Rightarrow> 'a list" where
  "siftdown lt heap startpos pos = siftdown_loop lt heap startpos pos (heap ! pos)"

text \<open>
  The first loop of \<^verbatim>\<open>_siftup\<close>: the smaller child moves up until \<open>pos\<close> is a leaf.
  It returns the list and the position of the leaf that is now free.
\<close>

function siftup_loop :: "('a \<Rightarrow> 'a \<Rightarrow> bool) \<Rightarrow> 'a list \<Rightarrow> nat \<Rightarrow> 'a list \<times> nat" where
  "siftup_loop lt heap pos =
     (let endpos = length heap; childpos = 2 * pos + 1
      in if childpos < endpos then
           (let rightpos = childpos + 1;
                childpos' = (if rightpos < endpos \<and> \<not> lt (heap ! childpos) (heap ! rightpos)
                             then rightpos else childpos)
            in siftup_loop lt (heap[pos := heap ! childpos']) childpos')
         else (heap, pos))"
  by pat_completeness auto
termination
  by (relation "measure (\<lambda>(lt, heap, pos). length heap - pos)") (auto simp: Let_def)

declare siftup_loop.simps [simp del]

definition siftup :: "('a \<Rightarrow> 'a \<Rightarrow> bool) \<Rightarrow> 'a list \<Rightarrow> nat \<Rightarrow> 'a list" where
  "siftup lt heap pos =
     (let newitem = heap ! pos;
          (heap', pos') = siftup_loop lt heap pos
      in siftdown lt (heap'[pos' := newitem]) pos pos')"

definition heappush :: "('a \<Rightarrow> 'a \<Rightarrow> bool) \<Rightarrow> 'a list \<Rightarrow> 'a \<Rightarrow> 'a list" where
  "heappush lt heap item = siftdown lt (heap @ [item]) 0 (length heap)"

definition heappop :: "('a \<Rightarrow> 'a \<Rightarrow> bool) \<Rightarrow> 'a list \<Rightarrow> error + ('a \<times> 'a list)" where
  "heappop lt heap =
     (if heap = [] then Inl IndexError
      else (let lastelt = last heap; heap' = butlast heap
            in if heap' \<noteq> [] then Inr (heap' ! 0, siftup lt (heap'[0 := lastelt]) 0)
               else Inr (lastelt, heap')))"

definition heapify :: "('a \<Rightarrow> 'a \<Rightarrow> bool) \<Rightarrow> 'a list \<Rightarrow> 'a list" where
  "heapify lt x = fold (\<lambda>i heap. siftup lt heap i) (rev [0 ..< length x div 2]) x"

subsection \<open>The heap operations keep the elements\<close>

lemma mset_update_swap_aux:
  assumes "i < length xs" "j < length xs" "i \<noteq> j"
  shows "mset (xs[i := xs ! j, j := x]) = mset (xs[i := x])"
  using assms by (simp add: mset_update nth_list_update)

lemma mset_siftdown_loop:
  "pos < length heap \<Longrightarrow>
   mset (siftdown_loop lt heap startpos pos newitem) = mset (heap[pos := newitem])"
proof (induction lt heap startpos pos newitem rule: siftdown_loop.induct)
  case (1 lt heap startpos pos newitem)
  show ?case
  proof (cases "pos > startpos \<and> lt newitem (heap ! ((pos - 1) div 2))")
    case True
    then have lt: "(pos - 1) div 2 < pos" by arith
    with "1.prems" have pp: "(pos - 1) div 2 < length heap" by simp
    have "mset (siftdown_loop lt heap startpos pos newitem)
        = mset (siftdown_loop lt (heap[pos := heap ! ((pos - 1) div 2)]) startpos ((pos - 1) div 2) newitem)"
      using True by (subst siftdown_loop.simps) (simp add: Let_def)
    also have "\<dots> = mset (heap[pos := heap ! ((pos - 1) div 2), (pos - 1) div 2 := newitem])"
      using True pp by (intro "1.IH") auto
    also have "\<dots> = mset (heap[pos := newitem])"
      using "1.prems" pp lt by (intro mset_update_swap_aux) auto
    finally show ?thesis .
  next
    case False
    then show ?thesis by (subst siftdown_loop.simps) (auto simp: Let_def)
  qed
qed

lemma mset_siftdown: "pos < length heap \<Longrightarrow> mset (siftdown lt heap startpos pos) = mset heap"
  by (simp add: siftdown_def mset_siftdown_loop)

lemma siftup_loop_props:
  "pos < length heap \<Longrightarrow> siftup_loop lt heap pos = (heap', pos') \<Longrightarrow>
   pos' < length heap \<and> length heap' = length heap \<and>
   mset (heap'[pos' := x]) = mset (heap[pos := x])"
proof (induction lt heap pos arbitrary: heap' pos' rule: siftup_loop.induct)
  case (1 lt heap pos)
  show ?case
  proof (cases "2 * pos + 1 < length heap")
    case True
    define c where "c = (if 2 * pos + 1 + 1 < length heap \<and> \<not> lt (heap ! (2 * pos + 1)) (heap ! (2 * pos + 1 + 1))
                             then 2 * pos + 1 + 1 else 2 * pos + 1)"
    have c: "c < length heap" "pos \<noteq> c" using True by (auto simp: c_def)
    have eq: "siftup_loop lt heap pos = siftup_loop lt (heap[pos := heap ! c]) c"
      using True by (subst siftup_loop.simps) (simp add: Let_def c_def)
    have "pos' < length (heap[pos := heap ! c]) \<and> length heap' = length (heap[pos := heap ! c]) \<and>
       mset (heap'[pos' := x]) = mset (heap[pos := heap ! c, c := x])"
      using True c "1.prems" eq "1.IH"[OF refl refl True refl refl, folded c_def, of heap' pos']
      by simp
    moreover have "mset (heap[pos := heap ! c, c := x]) = mset (heap[pos := x])"
      using c "1.prems" by (intro mset_update_swap_aux) auto
    ultimately show ?thesis by simp
  next
    case False
    then have "siftup_loop lt heap pos = (heap, pos)"
      by (subst siftup_loop.simps) (simp add: Let_def)
    with "1.prems" show ?thesis by auto
  qed
qed

lemma mset_siftup: "pos < length heap \<Longrightarrow> mset (siftup lt heap pos) = mset heap"
proof -
  assume p: "pos < length heap"
  obtain h' p' where s: "siftup_loop lt heap pos = (h', p')" by (cases "siftup_loop lt heap pos")
  from siftup_loop_props[OF p s, of "heap ! pos"]
  have "p' < length heap" "length h' = length heap" "mset (h'[p' := heap ! pos]) = mset heap"
    by auto
  then show ?thesis by (simp add: siftup_def s mset_siftdown)
qed

lemma mset_heappush: "mset (heappush lt heap item) = add_mset item (mset heap)"
  by (simp add: heappush_def mset_siftdown)

lemma heappop_props:
  "heap \<noteq> [] \<Longrightarrow> \<exists>x heap'. heappop lt heap = Inr (x, heap') \<and> mset heap = add_mset x (mset heap')"
proof -
  assume ne: "heap \<noteq> []"
  then obtain ys y where h: "heap = ys @ [y]" by (metis rev_exhaust)
  show ?thesis
  proof (cases ys)
    case Nil
    then show ?thesis by (simp add: heappop_def h)
  next
    case (Cons z zs)
    then show ?thesis by (simp add: heappop_def h mset_siftup)
  qed
qed

lemma mset_fold_siftup:
  "\<forall>i\<in>set is. i < length x \<Longrightarrow> mset (fold (\<lambda>i heap. siftup lt heap i) is x) = mset x"
proof (induction "is" arbitrary: x)
  case Nil then show ?case by simp
next
  case (Cons i "is")
  have "length (siftup lt x i) = length x" using Cons.prems by (metis list.set_intros(1) mset_siftup size_mset)
  then show ?case using Cons by (simp add: mset_siftup)
qed

lemma mset_heapify: "mset (heapify lt x) = mset x"
  unfolding heapify_def by (rule mset_fold_siftup) auto

lemma heappop_mset:
  "heappop lt heap = Inr (x, heap') \<Longrightarrow> mset heap = add_mset x (mset heap')"
  using heappop_props[of heap lt] by (cases "heap = []") (auto simp: heappop_def)

lemma heappop_length:
  "heappop lt heap = Inr (x, heap') \<Longrightarrow> length heap = Suc (length heap')"
  by (drule heappop_mset) (metis size_mset size_add_mset)

lemma length_heappush: "length (heappush lt heap item) = Suc (length heap)"
  by (metis mset_heappush size_mset size_add_mset)

subsection \<open>BoxPacker\<close>

text \<open>
  \<^verbatim>\<open>WeighedBoxes = namedtuple('WeighedBoxes', 'weight_difference boxes')\<close>
\<close>

record weighed_boxes =
  weight_difference :: int
  boxes :: "box list"

text \<open>
  The heap compares two WeighedBoxes with the \<^verbatim>\<open><\<close> of tuples: the first components
  that differ decide. When the weight differences are equal the two lists of boxes are
  compared, again at the first position where they differ. Box defines no \<^verbatim>\<open>__eq__\<close>,
  so two boxes are equal only when they are the same object, and the lists held in the
  heap never share a Box object (every list is made of boxes created for it). Hence two
  non-empty lists differ at position 0, and \<^verbatim>\<open>Box.__lt__\<close> of the two first boxes
  decides; an empty list is smaller than a non-empty one.
\<close>

fun boxes_lt :: "box list \<Rightarrow> box list \<Rightarrow> bool" where
  "boxes_lt (b1 # _) (b2 # _) \<longleftrightarrow> box_lt b1 b2"
| "boxes_lt [] (_ # _) \<longleftrightarrow> True"
| "boxes_lt _ [] \<longleftrightarrow> False"

definition weighed_boxes_lt :: "weighed_boxes \<Rightarrow> weighed_boxes \<Rightarrow> bool" where
  "weighed_boxes_lt x y \<longleftrightarrow>
     (if weight_difference x \<noteq> weight_difference y
      then weight_difference x < weight_difference y
      else boxes_lt (boxes x) (boxes y))"

definition weigh_boxes :: "box list \<Rightarrow> error + weighed_boxes" where
  "weigh_boxes bs =
     (let weights = map get_total_weight_in_grams bs
      in if weights = [] then Inl ValueError_empty_sequence
         else Inr \<lparr>weight_difference = Min (set weights) - Max (set weights), boxes = bs\<rparr>)"

text \<open>
  \<^verbatim>\<open>sorted(xs, key=key, reverse=True)\<close>: a stable sort into descending order of the key
  (elements with equal keys keep their order).
\<close>

definition sorted_reverse :: "('a \<Rightarrow> int) \<Rightarrow> 'a list \<Rightarrow> 'a list" where
  "sorted_reverse key xs = sort_key (\<lambda>x. - key x) xs"

definition combine_boxes :: "box list \<Rightarrow> box list \<Rightarrow> box list" where
  "combine_boxes boxes1 boxes2 =
     (let combined_boxes = map2 combine boxes1 (rev boxes2)
      in sorted_reverse get_total_weight_in_grams combined_boxes)"

text \<open>
  The body of the loop over \<^verbatim>\<open>sorted_articles\<close>: \<^verbatim>\<open>number_of_boxes\<close> empty boxes
  (none when the number is not positive, as \<^verbatim>\<open>range\<close> is empty then), the article
  added to the first one, and the list weighed.
\<close>

definition seed_boxes :: "int \<Rightarrow> article \<Rightarrow> error + weighed_boxes" where
  "seed_boxes number_of_boxes a =
     (let bs = replicate (nat number_of_boxes) (Box_init [])
      in if bs = [] then Inl IndexError
         else weigh_boxes (bs[0 := add_article (bs ! 0) a]))"

fun seed_all :: "int \<Rightarrow> article list \<Rightarrow> error + weighed_boxes list" where
  "seed_all number_of_boxes [] = Inr []"
| "seed_all number_of_boxes (a # as) =
     (case seed_boxes number_of_boxes a of
        Inl e \<Rightarrow> Inl e
      | Inr wb \<Rightarrow> (case seed_all number_of_boxes as of
                     Inl e \<Rightarrow> Inl e
                   | Inr wbs \<Rightarrow> Inr (wb # wbs)))"

text \<open>The body of the while loop of \<^verbatim>\<open>__ldm\<close>, on the heap \<^verbatim>\<open>partially_packed_boxes\<close>.\<close>

definition ldm_step :: "weighed_boxes list \<Rightarrow> error + weighed_boxes list" where
  "ldm_step h =
     (case heappop weighed_boxes_lt h of
        Inl e \<Rightarrow> Inl e
      | Inr (largest, h1) \<Rightarrow>
          (case heappop weighed_boxes_lt h1 of
             Inl e \<Rightarrow> Inl e
           | Inr (next_largest, h2) \<Rightarrow>
               (case weigh_boxes (combine_boxes (boxes largest) (boxes next_largest)) of
                  Inl e \<Rightarrow> Inl e
                | Inr weighed_combined_boxes \<Rightarrow>
                    Inr (heappush weighed_boxes_lt h2 weighed_combined_boxes))))"

lemma ldm_step_length:
  "ldm_step h = Inr h' \<Longrightarrow> Suc (length h') = length h"
  by (auto simp: ldm_step_def length_heappush split: sum.splits dest!: heappop_length)

function ldm_loop :: "weighed_boxes list \<Rightarrow> error + weighed_boxes list" where
  "ldm_loop h =
     (if length h > 1
      then (case ldm_step h of Inl e \<Rightarrow> Inl e | Inr h' \<Rightarrow> ldm_loop h')
      else Inr h)"
  by pat_completeness auto
termination
  by (relation "measure length") (auto dest: ldm_step_length)

declare ldm_loop.simps [simp del]

text \<open>
  \<^verbatim>\<open>BoxPacker.__ldm\<close>: \<open>seed_all\<close> is its loop over the sorted articles, \<open>ldm_loop\<close>
  its while loop; the boxes of the last element popped are returned. \<open>pack\<close> calls it
  with at least one article and at least 2 boxes only; the exceptions that the runtime
  would raise otherwise (an empty list of boxes, an empty heap) are results here.
\<close>

definition ldm :: "article list \<Rightarrow> int \<Rightarrow> error + box list" where
  "ldm articles number_of_boxes =
     (let sorted_articles = sorted_reverse get_weight_in_grams articles
      in case seed_all number_of_boxes sorted_articles of
           Inl e \<Rightarrow> Inl e
         | Inr partially_packed_boxes \<Rightarrow>
             (case ldm_loop (heapify weighed_boxes_lt partially_packed_boxes) of
                Inl e \<Rightarrow> Inl e
              | Inr h \<Rightarrow>
                  (case heappop weighed_boxes_lt h of
                     Inl e \<Rightarrow> Inl e
                   | Inr (wb, _) \<Rightarrow> Inr (boxes wb))))"

definition pack :: "article list \<Rightarrow> int \<Rightarrow> error + box list" where
  "pack articles number_of_boxes =
     (if articles = [] then Inr (replicate (nat number_of_boxes) (Box_init []))
      else if number_of_boxes < 1 then Inl (ValueError_number_of_boxes number_of_boxes)
      else if number_of_boxes = 1 then Inr [Box_init articles]
      else ldm articles number_of_boxes)"

subsection \<open>The greedy baseline of Benchmark.py\<close>

text \<open>
  \<^verbatim>\<open>min(boxes, key=Box.get_total_weight_in_grams)\<close> returns the first box of smallest key
  and raises ValueError on an empty list; \<open>min_index\<close> is the position of that box.
\<close>

fun min_index_loop :: "nat \<times> int \<Rightarrow> nat \<Rightarrow> int list \<Rightarrow> nat" where
  "min_index_loop (best, best_key) i [] = best"
| "min_index_loop (best, best_key) i (k # ks) =
     min_index_loop (if k < best_key then (i, k) else (best, best_key)) (Suc i) ks"

definition min_index :: "int list \<Rightarrow> error + nat" where
  "min_index keys =
     (case keys of [] \<Rightarrow> Inl ValueError_empty_sequence
      | k # ks \<Rightarrow> Inr (min_index_loop (0, k) 1 ks))"

fun greedy_loop :: "box list \<Rightarrow> article list \<Rightarrow> error + box list" where
  "greedy_loop bs [] = Inr bs"
| "greedy_loop bs (a # as) =
     (case min_index (map get_total_weight_in_grams bs) of
        Inl e \<Rightarrow> Inl e
      | Inr i \<Rightarrow> greedy_loop (bs[i := add_article (bs ! i) a]) as)"

definition greedy :: "article list \<Rightarrow> int \<Rightarrow> error + box list" where
  "greedy articles number_of_boxes =
     greedy_loop (replicate (nat number_of_boxes) (Box_init []))
       (sorted_reverse get_weight_in_grams articles)"

text \<open>
  The difference between the heaviest box and the lightest box, as \<^verbatim>\<open>run_benchmark\<close>
  computes it: \<^verbatim>\<open>max(weights) - min(weights)\<close>.
\<close>

definition spread :: "box list \<Rightarrow> int" where
  "spread bs =
     (let weights = map get_total_weight_in_grams bs
      in Max (set weights) - Min (set weights))"

text \<open>
  The heaps that the while loop of \<^verbatim>\<open>__ldm\<close> goes through, one for each evaluation of
  its condition: the heap it starts from first, the heap it ends with last.
\<close>

function ldm_trace :: "weighed_boxes list \<Rightarrow> weighed_boxes list list" where
  "ldm_trace h =
     h # (if length h > 1
          then (case ldm_step h of Inl e \<Rightarrow> [] | Inr h' \<Rightarrow> ldm_trace h')
          else [])"
  by pat_completeness auto
termination
  by (relation "measure length") (auto dest: ldm_step_length)

declare ldm_trace.simps [simp del]

subsection \<open>Predicates of the properties\<close>

text \<open>
  \<open>descending\<close>: the list of boxes is sorted by weight in descending order (the
  invariant that the comments of \<^verbatim>\<open>__ldm\<close> state). \<open>articles_in\<close>: the articles held
  by a list of boxes, with their multiplicities; \<open>queued_articles\<close>: those held by
  all the lists in the heap.
\<close>

definition descending :: "box list \<Rightarrow> bool" where
  "descending bs \<longleftrightarrow> sorted_wrt (\<lambda>x y. x \<ge> y) (map get_total_weight_in_grams bs)"

definition articles_in :: "box list \<Rightarrow> article multiset" where
  "articles_in bs = mset (concat (map get_box_items bs))"

definition boxes_ok :: "nat \<Rightarrow> weighed_boxes \<Rightarrow> bool" where
  "boxes_ok k wb \<longleftrightarrow>
     length (boxes wb) = k \<and> descending (boxes wb) \<and> list_all box_inv (boxes wb)"

definition queued_articles :: "weighed_boxes list \<Rightarrow> article multiset" where
  "queued_articles h = sum_list (map (\<lambda>wb. articles_in (boxes wb)) h)"

subsection \<open>Boxes and lists of boxes\<close>

lemma Article_init_positive:
  "Article_init oid weight_in_grams = Inr a \<Longrightarrow> 0 < get_weight_in_grams a"
  by (auto simp: Article_init_def split: if_splits)

lemma box_inv_Box_init [simp]: "box_inv (Box_init items)"
  by (simp add: box_inv_def Box_init_def)

lemma box_inv_add_article: "box_inv b \<Longrightarrow> box_inv (add_article b a)"
  by (simp add: box_inv_def add_article_def)

lemma box_inv_combine [simp]: "box_inv (combine b1 b2)"
  by (simp add: combine_def)

lemma mset_sorted_reverse [simp]: "mset (sorted_reverse key xs) = mset xs"
  by (simp add: sorted_reverse_def)

lemma set_sorted_reverse [simp]: "set (sorted_reverse key xs) = set xs"
  by (simp add: sorted_reverse_def)

lemma length_sorted_reverse [simp]: "length (sorted_reverse key xs) = length xs"
  by (simp add: sorted_reverse_def)

lemma sorted_reverse_descending:
  "sorted_wrt (\<lambda>x y. x \<ge> y) (map key (sorted_reverse key xs))"
proof -
  have "sorted (map (\<lambda>x. - key x) (sort_key (\<lambda>x. - key x) xs))" by (rule sorted_sort_key)
  then show ?thesis by (simp add: sorted_reverse_def sorted_wrt_map)
qed

lemma articles_in_Cons: "articles_in (b # bs) = mset (box_items b) + articles_in bs"
  by (simp add: articles_in_def get_box_items_def)

lemma articles_in_mset_cong: "mset bs = mset bs' \<Longrightarrow> articles_in bs = articles_in bs'"
proof -
  assume "mset bs = mset bs'"
  then have "mset (map (\<lambda>b. mset (get_box_items b)) bs) = mset (map (\<lambda>b. mset (get_box_items b)) bs')"
    by simp
  then have "sum_mset (mset (map (\<lambda>b. mset (get_box_items b)) bs)) = sum_mset (mset (map (\<lambda>b. mset (get_box_items b)) bs'))"
    by simp
  then show ?thesis
    by (simp add: articles_in_def mset_concat sum_mset_sum_list comp_def del: mset_map)
qed

lemma articles_in_rev [simp]: "articles_in (rev bs) = articles_in bs"
  by (rule articles_in_mset_cong) simp

lemma articles_in_map2_combine:
  "length xs = length ys \<Longrightarrow> articles_in (map2 combine xs ys) = articles_in xs + articles_in ys"
  by (induction xs ys rule: list_induct2)
     (simp_all add: articles_in_def combine_def Box_init_def get_box_items_def)

lemma combine_boxes_props:
  "descending (combine_boxes xs ys)"
  "list_all box_inv (combine_boxes xs ys)"
  "length xs = length ys \<Longrightarrow> length (combine_boxes xs ys) = length xs"
  "length xs = length ys \<Longrightarrow> articles_in (combine_boxes xs ys) = articles_in xs + articles_in ys"
proof -
  show "descending (combine_boxes xs ys)"
    by (simp add: descending_def combine_boxes_def sorted_reverse_descending)
  show "list_all box_inv (combine_boxes xs ys)"
    by (auto simp: combine_boxes_def list_all_iff set_zip)
  show "length xs = length ys \<Longrightarrow> length (combine_boxes xs ys) = length xs"
    by (simp add: combine_boxes_def)
  assume l: "length xs = length ys"
  have "articles_in (combine_boxes xs ys) = articles_in (map2 combine xs (rev ys))"
    unfolding combine_boxes_def Let_def by (rule articles_in_mset_cong) simp
  also have "\<dots> = articles_in xs + articles_in ys"
    using l by (simp add: articles_in_map2_combine)
  finally show "articles_in (combine_boxes xs ys) = articles_in xs + articles_in ys" .
qed

lemma weigh_boxes_Inr:
  "bs \<noteq> [] \<Longrightarrow> \<exists>wb. weigh_boxes bs = Inr wb \<and> boxes wb = bs"
  by (simp add: weigh_boxes_def)

lemma seed_boxes_props:
  assumes "1 \<le> n" "0 < get_weight_in_grams a"
  shows "\<exists>wb. seed_boxes n a = Inr wb \<and> boxes_ok (nat n) wb \<and> articles_in (boxes wb) = {#a#}"
proof -
  from assms obtain m where m: "nat n = Suc m" by (cases "nat n") auto
  let ?bs = "add_article (Box_init []) a # replicate m (Box_init [])"
  have "seed_boxes n a = weigh_boxes ?bs"
    by (simp add: seed_boxes_def m)
  then obtain wb where wb: "seed_boxes n a = Inr wb" "boxes wb = ?bs"
    using weigh_boxes_Inr[of ?bs] by auto
  have "descending ?bs"
    using assms(2)
    by (auto simp: descending_def get_total_weight_in_grams_def add_article_def Box_init_def
        sorted_wrt_iff_nth_less nth_Cons split: nat.splits)
  moreover have "list_all box_inv ?bs"
    by (auto simp: list_all_iff box_inv_add_article)
  moreover have "articles_in ?bs = {#a#}"
    by (induction m) (simp_all add: articles_in_def get_box_items_def add_article_def Box_init_def)
  ultimately show ?thesis using wb m by (auto simp: boxes_ok_def)
qed

lemma seed_all_props:
  assumes "1 \<le> n" "\<forall>a\<in>set as. 0 < get_weight_in_grams a"
  shows "\<exists>wbs. seed_all n as = Inr wbs \<and> length wbs = length as \<and>
           list_all (boxes_ok (nat n)) wbs \<and> queued_articles wbs = mset as"
  using assms(2)
proof (induction as)
  case Nil
  then show ?case by (simp add: queued_articles_def)
next
  case (Cons a as)
  then obtain wbs where wbs: "seed_all n as = Inr wbs" "length wbs = length as"
    "list_all (boxes_ok (nat n)) wbs" "queued_articles wbs = mset as" by auto
  from Cons.prems obtain wb where wb: "seed_boxes n a = Inr wb" "boxes_ok (nat n) wb"
    "articles_in (boxes wb) = {#a#}"
    using seed_boxes_props[OF assms(1), of a] by auto
  show ?case using wb wbs by (simp add: queued_articles_def)
qed

subsection \<open>The loop of the largest differencing method\<close>

lemma sum_list_map_mset_cong:
  fixes f :: "'a \<Rightarrow> 'b::comm_monoid_add"
  assumes "mset xs = mset ys"
  shows "sum_list (map f xs) = sum_list (map f ys)"
proof -
  have "sum_list (map f zs) = sum_mset (image_mset f (mset zs))" for zs
    by (metis mset_map sum_mset_sum_list)
  then show ?thesis using assms by simp
qed

lemma queued_articles_add:
  "mset h = add_mset x (mset h') \<Longrightarrow>
   queued_articles h = articles_in (boxes x) + queued_articles h'"
proof -
  assume "mset h = add_mset x (mset h')"
  then have "mset h = mset (x # h')" by simp
  then have "queued_articles h = queued_articles (x # h')"
    unfolding queued_articles_def by (rule sum_list_map_mset_cong)
  then show ?thesis by (simp add: queued_articles_def)
qed

lemma list_all_add:
  "mset h = add_mset x (mset h') \<Longrightarrow> list_all P h \<longleftrightarrow> P x \<and> list_all P h'"
proof -
  assume "mset h = add_mset x (mset h')"
  then have "set_mset (mset h) = set_mset (add_mset x (mset h'))" by simp
  then have "set h = insert x (set h')" by simp
  then show ?thesis by (simp add: list_all_iff)
qed

lemma ldm_step_props:
  assumes "length h > 1" "list_all (boxes_ok k) h" "k > 0"
  shows "\<exists>h'. ldm_step h = Inr h' \<and> list_all (boxes_ok k) h' \<and>
           queued_articles h' = queued_articles h \<and> Suc (length h') = length h"
proof -
  from assms(1) have "h \<noteq> []" by auto
  then obtain x h1 where p1: "heappop weighed_boxes_lt h = Inr (x, h1)"
    and m1: "mset h = add_mset x (mset h1)"
    using heappop_props[of h weighed_boxes_lt] by auto
  from heappop_length[OF p1] assms(1) have "h1 \<noteq> []" by auto
  then obtain y h2 where p2: "heappop weighed_boxes_lt h1 = Inr (y, h2)"
    and m2: "mset h1 = add_mset y (mset h2)"
    using heappop_props[of h1 weighed_boxes_lt] by auto
  from assms(2) m1 have okx: "boxes_ok k x" and ok1: "list_all (boxes_ok k) h1"
    by (simp_all add: list_all_add)
  from ok1 m2 have oky: "boxes_ok k y" and ok2: "list_all (boxes_ok k) h2"
    by (simp_all add: list_all_add)
  let ?c = "combine_boxes (boxes x) (boxes y)"
  have len: "length (boxes x) = length (boxes y)" "length (boxes x) = k"
    using okx oky by (simp_all add: boxes_ok_def)
  have lc: "length ?c = k" using combine_boxes_props(3)[OF len(1)] len(2) by simp
  with assms(3) have "?c \<noteq> []" by auto
  then obtain wb where wb: "weigh_boxes ?c = Inr wb" "boxes wb = ?c"
    using weigh_boxes_Inr by blast
  have okwb: "boxes_ok k wb"
    using wb(2) lc combine_boxes_props(1,2)[of "boxes x" "boxes y"] by (simp add: boxes_ok_def)
  have step: "ldm_step h = Inr (heappush weighed_boxes_lt h2 wb)"
    by (simp add: ldm_step_def p1 p2 wb(1))
  have m3: "mset (heappush weighed_boxes_lt h2 wb) = add_mset wb (mset h2)"
    by (rule mset_heappush)
  have "list_all (boxes_ok k) (heappush weighed_boxes_lt h2 wb)"
    using okwb ok2 by (simp add: list_all_add[OF m3])
  moreover have "queued_articles (heappush weighed_boxes_lt h2 wb) = queued_articles h"
    using combine_boxes_props(4)[OF len(1)] wb(2)
    by (simp add: queued_articles_add[OF m3] queued_articles_add[OF m1] queued_articles_add[OF m2])
  moreover have "Suc (length (heappush weighed_boxes_lt h2 wb)) = length h"
    using heappop_length[OF p1] heappop_length[OF p2] by (simp add: length_heappush)
  ultimately show ?thesis using step by simp
qed

lemma ldm_loop_props:
  "h \<noteq> [] \<Longrightarrow> list_all (boxes_ok k) h \<Longrightarrow> k > 0 \<Longrightarrow>
   \<exists>h'. ldm_loop h = Inr h' \<and> length h' = 1 \<and> list_all (boxes_ok k) h' \<and>
        queued_articles h' = queued_articles h"
proof (induction h rule: ldm_loop.induct)
  case (1 h)
  show ?case
  proof (cases "length h > 1")
    case True
    from ldm_step_props[OF True "1.prems"(2,3)] obtain h1 where
      h1: "ldm_step h = Inr h1" "list_all (boxes_ok k) h1"
          "queued_articles h1 = queued_articles h" "Suc (length h1) = length h"
      by auto
    from h1(4) True have "h1 \<noteq> []" by auto
    from "1.IH"[OF True h1(1) this h1(2) "1.prems"(3)] h1(3)
    show ?thesis using True h1(1) by (subst ldm_loop.simps) simp
  next
    case False
    with "1.prems"(1) have "length h = 1" by (cases h) auto
    with False "1.prems" show ?thesis by (subst ldm_loop.simps) simp
  qed
qed

lemma ldm_trace_props:
  "list_all (boxes_ok k) h \<Longrightarrow> k > 0 \<Longrightarrow>
   list_all (list_all (boxes_ok k)) (ldm_trace h)"
proof (induction h rule: ldm_trace.induct)
  case (1 h)
  show ?case
  proof (cases "length h > 1")
    case True
    from ldm_step_props[OF True "1.prems"] obtain h1 where
      h1: "ldm_step h = Inr h1" "list_all (boxes_ok k) h1" by auto
    from "1.IH"[OF True h1(1) h1(2) "1.prems"(2)] "1.prems"(1)
    show ?thesis using True h1(1) by (subst ldm_trace.simps) simp
  next
    case False
    with "1.prems" show ?thesis by (subst ldm_trace.simps) simp
  qed
qed

lemma ldm_loop_last_trace:
  "ldm_loop h = Inr h' \<Longrightarrow> last (ldm_trace h) = h'"
proof (induction h rule: ldm_loop.induct)
  case (1 h)
  show ?case
  proof (cases "length h > 1")
    case True
    with "1.prems" obtain h1 where h1: "ldm_step h = Inr h1" "ldm_loop h1 = Inr h'"
      by (subst (asm) ldm_loop.simps) (auto split: sum.splits)
    have ne: "ldm_trace h1 \<noteq> []" by (subst ldm_trace.simps) simp
    from "1.IH"[OF True h1] ne True h1(1) show ?thesis
      by (subst ldm_trace.simps) simp
  next
    case False
    with "1.prems" show ?thesis
      by (subst (asm) ldm_loop.simps, subst ldm_trace.simps) simp
  qed
qed

lemma ldm_props:
  assumes "articles \<noteq> []" "1 \<le> n" "\<forall>a\<in>set articles. 0 < get_weight_in_grams a"
  shows "\<exists>bs. ldm articles n = Inr bs \<and> length bs = nat n \<and> descending bs \<and>
           list_all box_inv bs \<and> articles_in bs = mset articles"
proof -
  let ?sorted = "sorted_reverse get_weight_in_grams articles"
  have "\<forall>a\<in>set ?sorted. 0 < get_weight_in_grams a" using assms(3) by simp
  from seed_all_props[OF assms(2) this] obtain wbs where
    wbs: "seed_all n ?sorted = Inr wbs" "length wbs = length ?sorted"
      "list_all (boxes_ok (nat n)) wbs" "queued_articles wbs = mset ?sorted" by auto
  let ?h = "heapify weighed_boxes_lt wbs"
  have mh: "mset ?h = mset wbs" by (rule mset_heapify)
  then have "length ?h = length wbs" by (metis size_mset)
  with wbs(2) assms(1) have ne: "?h \<noteq> []" by auto
  have "set ?h = set wbs" using mh by (metis set_mset_mset)
  with wbs(3) have ok: "list_all (boxes_ok (nat n)) ?h" by (simp add: list_all_iff)
  have "queued_articles ?h = queued_articles wbs"
    unfolding queued_articles_def using mh by (rule sum_list_map_mset_cong)
  with wbs(4) have qa: "queued_articles ?h = mset articles" by simp
  have k: "nat n > 0" using assms(2) by simp
  from ldm_loop_props[OF ne ok k] obtain h' where
    h': "ldm_loop ?h = Inr h'" "length h' = 1" "list_all (boxes_ok (nat n)) h'"
        "queued_articles h' = queued_articles ?h" by auto
  from h'(2) obtain wb where hwb: "h' = [wb]" by (cases h') auto
  have pop: "heappop weighed_boxes_lt h' = Inr (wb, [])" by (simp add: hwb heappop_def)
  have res: "ldm articles n = Inr (boxes wb)"
    by (simp add: ldm_def wbs(1) h'(1) pop)
  from h'(3) hwb have "boxes_ok (nat n) wb" by simp
  moreover from h'(4) hwb qa have "articles_in (boxes wb) = mset articles"
    by (simp add: queued_articles_def)
  ultimately show ?thesis using res by (simp add: boxes_ok_def)
qed

lemma pack_props:
  assumes "1 \<le> n" "\<forall>a\<in>set articles. 0 < get_weight_in_grams a"
  shows "\<exists>bs. pack articles n = Inr bs \<and> length bs = nat n \<and> descending bs \<and>
           list_all box_inv bs \<and> articles_in bs = mset articles"
proof (cases "articles = []")
  case True
  have "articles_in (replicate m (Box_init [])) = {#}" for m
    by (induction m) (simp_all add: articles_in_def get_box_items_def Box_init_def)
  then show ?thesis using True
    by (simp add: pack_def descending_def list_all_iff sorted_wrt_iff_nth_less)
next
  case False
  show ?thesis
  proof (cases "n = 1")
    case True
    then show ?thesis using False
      by (simp add: pack_def descending_def articles_in_def get_box_items_def Box_init_def box_inv_def)
  next
    case n: False
    with assms(1) False have "pack articles n = ldm articles n" by (simp add: pack_def)
    then show ?thesis using ldm_props[OF False assms] by simp
  qed
qed

lemma pack_rejects_number_of_boxes:
  "articles \<noteq> [] \<Longrightarrow> number_of_boxes < 1 \<Longrightarrow>
   pack articles number_of_boxes = Inl (ValueError_number_of_boxes number_of_boxes)"
  by (simp add: pack_def)

lemma distinct_concat_unique:
  "distinct (concat xss) \<Longrightarrow> i < length xss \<Longrightarrow> j < length xss \<Longrightarrow>
   x \<in> set (xss ! i) \<Longrightarrow> x \<in> set (xss ! j) \<Longrightarrow> i = j"
proof (induction xss arbitrary: i j)
  case Nil
  then show ?case by simp
next
  case (Cons xs xss)
  show ?case
  proof (cases i; cases j)
    fix i' j' assume "i = Suc i'" "j = Suc j'"
    with Cons show ?thesis by auto
  next
    fix j' assume "i = 0" "j = Suc j'"
    with Cons.prems have "x \<in> set xs" "x \<in> set (concat xss)" by auto
    with Cons.prems(1) show ?thesis by auto
  next
    fix i' assume "i = Suc i'" "j = 0"
    with Cons.prems have "x \<in> set xs" "x \<in> set (concat xss)" by auto
    with Cons.prems(1) show ?thesis by auto
  qed simp
qed

subsection \<open>The store\<close>

text \<open>
  The functions on box values of the first sections are what the methods do to the box
  that a Box object stands for. Inside \<open>pack\<close>, \<open>ldm\<close> and \<open>greedy\<close> every list given
  to the constructor of Box is created for it and held by nothing else, except the list
  of articles that \<open>pack\<close> is given, which it does not change.
\<close>

lemma items_of_kept:
  "l < length (list_objs s) \<Longrightarrow> list_all (\<lambda>r. r < length (article_objs s)) (list_objs s ! l) \<Longrightarrow>
   article_objs s' = article_objs s @ ws \<Longrightarrow> list_objs s' ! l = list_objs s ! l \<Longrightarrow>
   items_of s' l = items_of s l"
  by (auto simp: items_of_def article_of_def list_all_iff nth_append)

lemma store_ok_list:
  "store_ok s \<Longrightarrow> l < length (list_objs s) \<Longrightarrow>
   list_all (\<lambda>r. r < length (article_objs s)) (list_objs s ! l)"
  by (simp add: store_ok_def list_all_length)

lemma store_ok_box:
  "store_ok s \<Longrightarrow> b < length (box_objs s) \<Longrightarrow> box_items_ref (box_objs s ! b) < length (list_objs s)"
  by (simp add: store_ok_def list_all_length)

lemma store_ok_empty: "store_ok empty_store"
  by (simp add: store_ok_def empty_store_def)

lemma Article_new_ok:
  "store_ok s \<Longrightarrow> Article_new s w = Inr (r, s') \<Longrightarrow> store_ok s'"
  by (fastforce simp: Article_new_def Article_init_def store_ok_def list_all_iff split: if_splits)

lemma list_new_ok: "store_ok s \<Longrightarrow> list_new s rs = Some (l, s') \<Longrightarrow> store_ok s'"
  by (fastforce simp: list_new_def store_ok_def list_all_iff split: if_splits)

lemma list_append_ok:
  assumes "store_ok s" "list_append s l r = Some s'"
  shows "store_ok s'"
proof -
  from assms(2) have l: "l < length (list_objs s)" and r: "r < length (article_objs s)"
    and s': "s' = s\<lparr>list_objs := (list_objs s)[l := list_objs s ! l @ [r]]\<rparr>"
    by (auto simp: list_append_def split: if_splits)
  have "list_all (\<lambda>r. r < length (article_objs s)) ((list_objs s)[l := list_objs s ! l @ [r]] ! n)"
    if "n < length (list_objs s)" for n
    using store_ok_list[OF assms(1) that] store_ok_list[OF assms(1) l] r l that
    by (cases "n = l") simp_all
  then have "list_all (list_all (\<lambda>r. r < length (article_objs s)))
               ((list_objs s)[l := list_objs s ! l @ [r]])"
    by (simp add: list_all_length)
  with assms(1) show ?thesis by (simp add: s' store_ok_def)
qed

lemma Box_new_ok: "store_ok s \<Longrightarrow> Box_new s l = Some (b, s') \<Longrightarrow> store_ok s'"
  by (fastforce simp: Box_new_def store_ok_def list_all_iff split: if_splits)

lemma add_article_ref_ok: "store_ok s \<Longrightarrow> add_article_ref s b r = Some s' \<Longrightarrow> store_ok s'"
proof -
  assume ok: "store_ok s" and a: "add_article_ref s b r = Some s'"
  from a obtain s1 where s1: "list_append s (box_items_ref (box_objs s ! b)) r = Some s1"
    and b: "b < length (box_objs s)"
    and s': "s' = s1\<lparr>box_objs := (box_objs s1)
                        [b := (box_objs s1 ! b)
                           \<lparr>cached_total := cached_total (box_objs s1 ! b) +
                              get_weight_in_grams (article_of s1 r)\<rparr>]\<rparr>"
    by (auto simp: add_article_ref_def split: if_splits option.splits)
  from list_append_ok[OF ok s1] have ok1: "store_ok s1" .
  have "box_items_ref (((box_objs s1)
                        [b := (box_objs s1 ! b)
                           \<lparr>cached_total := cached_total (box_objs s1 ! b) +
                              get_weight_in_grams (article_of s1 r)\<rparr>]) ! n) < length (list_objs s1)"
    if "n < length (box_objs s1)" for n
    using store_ok_box[OF ok1 that] that by (cases "n = b") simp_all
  then have "list_all (\<lambda>bo. box_items_ref bo < length (list_objs s1)) ((box_objs s1)
                        [b := (box_objs s1 ! b)
                           \<lparr>cached_total := cached_total (box_objs s1 ! b) +
                              get_weight_in_grams (article_of s1 r)\<rparr>])"
    by (simp add: list_all_length)
  with ok1 show ?thesis by (simp add: s' store_ok_def)
qed

lemma combine_ref_ok: "store_ok s \<Longrightarrow> combine_ref s b1 b2 = Some (b, s') \<Longrightarrow> store_ok s'"
  by (auto simp: combine_ref_def split: option.splits if_splits dest: list_new_ok Box_new_ok)

lemma exec_ok: "store_ok s \<Longrightarrow> exec c s = Some s' \<Longrightarrow> store_ok s'"
  by (cases c)
     (auto split: sum.splits if_splits dest: Article_new_ok list_new_ok list_append_ok Box_new_ok
        add_article_ref_ok combine_ref_ok)

lemma run_ok: "store_ok s \<Longrightarrow> run calls s = Some s' \<Longrightarrow> store_ok s'"
  by (induction calls arbitrary: s) (auto split: option.splits dest: exec_ok)

lemma exec_article_objs:
  "exec c s = Some s' \<Longrightarrow> \<exists>ws. article_objs s' = article_objs s @ ws"
  by (cases c)
     (auto simp: Article_new_def list_new_def list_append_def Box_new_def add_article_ref_def
        combine_ref_def split: sum.splits if_splits option.splits)

lemma run_article_objs:
  "run calls s = Some s' \<Longrightarrow> \<exists>ws. article_objs s' = article_objs s @ ws"
proof (induction calls arbitrary: s)
  case Nil
  then show ?case by simp
next
  case (Cons c calls)
  then obtain s1 where s1: "exec c s = Some s1" "run calls s1 = Some s'"
    by (auto split: option.splits)
  from exec_article_objs[OF s1(1)] Cons.IH[OF s1(2)] show ?case by auto
qed

lemma run_get_weight_in_grams:
  "run calls s = Some s' \<Longrightarrow> get_weight_in_grams_ref s r = Some w \<Longrightarrow>
   get_weight_in_grams_ref s' r = Some w"
  by (drule run_article_objs) (auto simp: get_weight_in_grams_ref_def nth_append split: if_splits)

lemma article_of_update [simp]:
  "article_of (s\<lparr>list_objs := ls\<rparr>) = article_of s"
  "article_of (s\<lparr>box_objs := bs\<rparr>) = article_of s"
  by (rule ext, simp add: article_of_def)+

lemma Box_new_box_of:
  "store_ok s \<Longrightarrow> Box_new s l = Some (b, s') \<Longrightarrow> box_of s' b = Box_init (items_of s l)"
  by (auto simp: Box_new_def box_of_def Box_init_def items_of_def article_of_def split: if_splits)

lemma add_article_ref_box_of:
  "store_ok s \<Longrightarrow> add_article_ref s b r = Some s' \<Longrightarrow>
   box_of s' b = add_article (box_of s b) (article_of s r)"
  by (auto simp: add_article_ref_def list_append_def box_of_def add_article_def items_of_def
      article_of_def store_ok_def list_all_length split: if_splits)

section \<open>The properties of the specification\<close>

text \<open>
  C1. For every list of articles, all of positive weight, and every number of boxes that
  is at least 1, \<open>pack\<close> returns a list of boxes, and the articles in these boxes,
  counted with their multiplicities, are the articles of the input: none is lost and
  none is duplicated. When the input list holds every article object once, each of them
  is in exactly one of the returned boxes.
\<close>

theorem pack_partition:
  assumes "1 \<le> number_of_boxes" "\<forall>a\<in>set articles. 0 < get_weight_in_grams a"
  shows "\<exists>bs. pack articles number_of_boxes = Inr bs \<and>
           mset (concat (map get_box_items bs)) = mset articles \<and>
           (distinct articles \<longrightarrow>
              (\<forall>a\<in>set articles. \<exists>!i. i < length bs \<and> a \<in> set (get_box_items (bs ! i))))"
proof -
  from pack_props[OF assms] obtain bs where
    bs: "pack articles number_of_boxes = Inr bs" "articles_in bs = mset articles" by auto
  let ?xss = "map get_box_items bs"
  have m: "mset (concat ?xss) = mset articles" using bs(2) by (simp add: articles_in_def)
  have "\<exists>!i. i < length bs \<and> a \<in> set (get_box_items (bs ! i))"
    if d: "distinct articles" and a: "a \<in> set articles" for a
  proof -
    from m d have dc: "distinct (concat ?xss)" by (metis distinct_count_atmost_1 count_mset_0_iff set_mset_mset)
    from m a have "a \<in> set (concat ?xss)" by (metis set_mset_mset)
    then obtain b where "b \<in> set bs" "a \<in> set (get_box_items b)" by auto
    then obtain i where i: "i < length bs" "a \<in> set (get_box_items (bs ! i))"
      by (auto simp: in_set_conv_nth)
    moreover have "j = i" if "j < length bs" "a \<in> set (get_box_items (bs ! j))" for j
      using distinct_concat_unique[OF dc, of j i a] that i by simp
    ultimately show ?thesis by blast
  qed
  with bs(1) m show ?thesis by blast
qed

theorem pack_partition_witness:
  "\<exists>bs. pack [Article 0 5, Article 1 3, Article 2 5] 2 = Inr bs \<and>
     mset (concat (map get_box_items bs)) = mset [Article 0 5, Article 1 3, Article 2 5] \<and>
     (\<exists>i. i < length bs \<and> Article 1 3 \<in> set (get_box_items (bs ! i)))"
proof -
  have h: "(1::int) \<le> 2" "\<forall>a\<in>set [Article 0 5, Article 1 3, Article 2 5]. 0 < get_weight_in_grams a"
    by simp_all
  from pack_partition[OF h] obtain bs where
    bs: "pack [Article 0 5, Article 1 3, Article 2 5] 2 = Inr bs" "mset (concat (map get_box_items bs)) = mset [Article 0 5, Article 1 3, Article 2 5]"
        "distinct [Article 0 5, Article 1 3, Article 2 5] \<longrightarrow>
           (\<forall>a\<in>set [Article 0 5, Article 1 3, Article 2 5]. \<exists>!i. i < length bs \<and> a \<in> set (get_box_items (bs ! i)))"
    by blast
  have "distinct [Article 0 5, Article 1 3, Article 2 5]" "Article 1 3 \<in> set [Article 0 5, Article 1 3, Article 2 5]" by simp_all
  with bs(3) have "\<exists>!i. i < length bs \<and> Article 1 3 \<in> set (get_box_items (bs ! i))"
    by blast
  then have "\<exists>i. i < length bs \<and> Article 1 3 \<in> set (get_box_items (bs ! i))"
    by blast
  with bs(1,2) show ?thesis by blast
qed

text \<open>
  C2. For every list of articles, all of positive weight, and every number of boxes that
  is at least 1, the total weights of the boxes that \<open>pack\<close> returns add up to the sum
  of the weights of the articles.
\<close>

theorem pack_conserves_weight:
  assumes "1 \<le> number_of_boxes" "\<forall>a\<in>set articles. 0 < get_weight_in_grams a"
  shows "\<exists>bs. pack articles number_of_boxes = Inr bs \<and>
           sum_list (map get_total_weight_in_grams bs) = sum_list (map get_weight_in_grams articles)"
proof -
  from pack_props[OF assms] obtain bs where
    bs: "pack articles number_of_boxes = Inr bs" "list_all box_inv bs"
        "articles_in bs = mset articles" by auto
  have flat: "sum_list (map (\<lambda>b. sum_list (map get_weight_in_grams (get_box_items b))) cs)
      = sum_list (map get_weight_in_grams (concat (map get_box_items cs)))" for cs
    by (induction cs) simp_all
  have "map get_total_weight_in_grams bs
      = map (\<lambda>b. sum_list (map get_weight_in_grams (get_box_items b))) bs"
    using bs(2) by (simp add: list_all_iff box_inv_def get_total_weight_in_grams_def get_box_items_def)
  then have "sum_list (map get_total_weight_in_grams bs)
      = sum_list (map (\<lambda>b. sum_list (map get_weight_in_grams (get_box_items b))) bs)"
    by (rule arg_cong)
  also have "\<dots> = sum_list (map get_weight_in_grams (concat (map get_box_items bs)))"
    by (rule flat)
  also have "\<dots> = sum_list (map get_weight_in_grams articles)"
    using bs(3) unfolding articles_in_def by (rule sum_list_map_mset_cong)
  finally show ?thesis using bs(1) by simp
qed

theorem pack_conserves_weight_witness:
  "\<exists>bs. pack [Article 0 5, Article 1 3, Article 2 5] 2 = Inr bs \<and> sum_list (map get_total_weight_in_grams bs) = 13"
  using pack_conserves_weight[of 2 "[Article 0 5, Article 1 3, Article 2 5]"] by simp

text \<open>
  C3. For every list of articles, all of positive weight, and every number of boxes that
  is at least 1, \<open>pack\<close> returns exactly that number of boxes.
\<close>

theorem pack_number_of_boxes:
  assumes "1 \<le> number_of_boxes" "\<forall>a\<in>set articles. 0 < get_weight_in_grams a"
  shows "\<exists>bs. pack articles number_of_boxes = Inr bs \<and> int (length bs) = number_of_boxes"
  using pack_props[OF assms] assms(1) by auto

theorem pack_number_of_boxes_witness:
  "\<exists>bs. pack [Article 0 5, Article 1 3, Article 2 5] 3 = Inr bs \<and> int (length bs) = 3"
  using pack_number_of_boxes[of 3 "[Article 0 5, Article 1 3, Article 2 5]"] by simp

text \<open>
  C4, as the code has it. For the articles of weights 900, 800, 700, 600 and 500 and two
  boxes, \<open>pack\<close> returns boxes of total weights 1900 and 1600: the difference between
  the heaviest and the lightest box is 300, neither 0 nor 100. The greedy baseline
  returns boxes with a difference of 500 on the same input, so the difference of \<open>pack\<close>
  is not larger than that of the baseline.
\<close>

theorem ldm_example_difference:
  "map_sum id (map get_total_weight_in_grams) (pack [Article 0 900, Article 1 800, Article 2 700, Article 3 600, Article 4 500] 2) = Inr [1900, 1600] \<and>
   map_sum id spread (pack [Article 0 900, Article 1 800, Article 2 700, Article 3 600, Article 4 500] 2) = Inr 300 \<and>
   map_sum id spread (greedy [Article 0 900, Article 1 800, Article 2 700, Article 3 600, Article 4 500] 2) = Inr 500 \<and>
   (300::int) \<le> 500"
  by code_simp

theorem ldm_example_not_0_or_100:
  "\<not> (map_sum id spread (pack [Article 0 900, Article 1 800, Article 2 700, Article 3 600, Article 4 500] 2) = Inr 0 \<or>
      map_sum id spread (pack [Article 0 900, Article 1 800, Article 2 700, Article 3 600, Article 4 500] 2) = Inr 100)"
  by code_simp

text \<open>
  C5, at the input where the code departs from it. With no articles and zero boxes
  \<open>pack\<close> raises nothing: the test for an empty list of articles comes before the
  test of the number of boxes, and the call returns the empty list of boxes. (With at
  least one article the ValueError is raised, see \<open>pack_rejects_number_of_boxes\<close>.)
\<close>

theorem pack_nothing_into_zero_boxes: "pack [] 0 = Inr []"
  by (simp add: pack_def)

text \<open>
  C6. For a non-empty list of articles, all of positive weight (as every article that
  the constructor returns is, see \<open>Article_init_positive\<close>), and at least 2 boxes:
  the lists of boxes that the loop over the sorted articles creates are sorted by weight
  in descending order, and so is every list of boxes in the heap each time the condition
  of the while loop of \<open>ldm\<close> is evaluated, up to and including the heap that the loop
  ends with. Whatever the two lists it is given, \<open>combine_boxes\<close> returns a list sorted
  in this order, which is the list that is pushed back.
\<close>

theorem ldm_queue_descending:
  assumes "articles \<noteq> []" "2 \<le> number_of_boxes" "\<forall>a\<in>set articles. 0 < get_weight_in_grams a"
  shows "\<exists>seeds h'.
           seed_all number_of_boxes (sorted_reverse get_weight_in_grams articles) = Inr seeds \<and>
           list_all (\<lambda>wb. descending (boxes wb)) seeds \<and>
           list_all (list_all (\<lambda>wb. descending (boxes wb)))
             (ldm_trace (heapify weighed_boxes_lt seeds)) \<and>
           ldm_loop (heapify weighed_boxes_lt seeds) = Inr h' \<and>
           last (ldm_trace (heapify weighed_boxes_lt seeds)) = h' \<and>
           (\<forall>boxes1 boxes2. descending (combine_boxes boxes1 boxes2))"
proof -
  let ?sorted = "sorted_reverse get_weight_in_grams articles"
  have n: "1 \<le> number_of_boxes" "nat number_of_boxes > 0" using assms(2) by simp_all
  have "\<forall>a\<in>set ?sorted. 0 < get_weight_in_grams a" using assms(3) by simp
  from seed_all_props[OF n(1) this] obtain seeds where
    s: "seed_all number_of_boxes ?sorted = Inr seeds" "length seeds = length ?sorted"
       "list_all (boxes_ok (nat number_of_boxes)) seeds" by auto
  let ?h = "heapify weighed_boxes_lt seeds"
  have mh: "mset ?h = mset seeds" by (rule mset_heapify)
  then have "set ?h = set seeds" "length ?h = length seeds" by (metis set_mset_mset, metis size_mset)
  with s(2,3) assms(1) have ok: "list_all (boxes_ok (nat number_of_boxes)) ?h" and ne: "?h \<noteq> []"
    by (auto simp: list_all_iff)
  from ldm_loop_props[OF ne ok n(2)] obtain h' where h': "ldm_loop ?h = Inr h'" by auto
  have "list_all (list_all (boxes_ok (nat number_of_boxes))) (ldm_trace ?h)"
    by (rule ldm_trace_props[OF ok n(2)])
  then have "list_all (list_all (\<lambda>wb. descending (boxes wb))) (ldm_trace ?h)"
    by (auto simp: list_all_iff boxes_ok_def)
  moreover have "list_all (\<lambda>wb. descending (boxes wb)) seeds"
    using s(3) by (auto simp: list_all_iff boxes_ok_def)
  ultimately show ?thesis
    using s(1) h' ldm_loop_last_trace[OF h'] combine_boxes_props(1) by blast
qed

theorem ldm_queue_descending_witness:
  "\<exists>seeds h'.
      seed_all 2 (sorted_reverse get_weight_in_grams [Article 0 5, Article 1 3, Article 2 5]) = Inr seeds \<and>
      list_all (\<lambda>wb. descending (boxes wb)) seeds \<and>
      list_all (list_all (\<lambda>wb. descending (boxes wb)))
        (ldm_trace (heapify weighed_boxes_lt seeds)) \<and>
      ldm_loop (heapify weighed_boxes_lt seeds) = Inr h' \<and>
      last (ldm_trace (heapify weighed_boxes_lt seeds)) = h' \<and>
      (\<forall>boxes1 boxes2. descending (combine_boxes boxes1 boxes2))"
  using ldm_queue_descending[of "[Article 0 5, Article 1 3, Article 2 5]" 2] by simp


text \<open>
  C8, as the code has it. For two Box objects of a store (the same object twice is
  allowed; every store that calls build from the empty store is \<open>store_ok\<close>, see
  \<open>run_ok\<close>), \<open>Box.combine\<close> returns a new Box object on a new list object. Its items are
  the items of the first box followed by those of the second, and its total weight is
  the sum of the weights of these items; this is the sum of the two totals when the total
  of each of the two boxes is the sum of the weights of its items. No Article, list or
  Box object that was in the store before the call is changed, the two arguments among
  them.
\<close>

theorem combine_new_box:
  assumes "store_ok s" "box1 < length (box_objs s)" "box2 < length (box_objs s)"
  shows "\<exists>r s'. combine_ref s box1 box2 = Some (r, s') \<and>
           r = length (box_objs s) \<and> r \<noteq> box1 \<and> r \<noteq> box2 \<and>
           box_items_ref (box_objs s' ! r) = length (list_objs s) \<and>
           box_of s' r = combine (box_of s box1) (box_of s box2) \<and>
           get_box_items (box_of s' r) =
             get_box_items (box_of s box1) @ get_box_items (box_of s box2) \<and>
           get_total_weight_in_grams (box_of s' r) =
             sum_list (map get_weight_in_grams
               (get_box_items (box_of s box1) @ get_box_items (box_of s box2))) \<and>
           (box_inv (box_of s box1) \<and> box_inv (box_of s box2) \<longrightarrow>
              get_total_weight_in_grams (box_of s' r) =
                get_total_weight_in_grams (box_of s box1) +
                get_total_weight_in_grams (box_of s box2)) \<and>
           article_objs s' = article_objs s \<and>
           take (length (list_objs s)) (list_objs s') = list_objs s \<and>
           take (length (box_objs s)) (box_objs s') = box_objs s \<and>
           box_of s' box1 = box_of s box1 \<and> box_of s' box2 = box_of s box2"
proof -
  let ?l1 = "box_items_ref (box_objs s ! box1)"
  let ?l2 = "box_items_ref (box_objs s ! box2)"
  let ?rs = "list_objs s ! ?l1 @ list_objs s ! ?l2"
  let ?s1 = "s\<lparr>list_objs := list_objs s @ [?rs]\<rparr>"
  let ?bo = "\<lparr>box_items_ref = length (list_objs s),
             cached_total = sum_list (map get_weight_in_grams (items_of ?s1 (length (list_objs s))))\<rparr>"
  let ?s' = "?s1\<lparr>box_objs := box_objs s @ [?bo]\<rparr>"
  have l: "?l1 < length (list_objs s)" "?l2 < length (list_objs s)"
    using assms by (simp_all add: store_ok_box)
  have rs: "list_all (\<lambda>r. r < length (article_objs s)) ?rs"
    using store_ok_list[OF assms(1) l(1)] store_ok_list[OF assms(1) l(2)] by simp
  have c: "combine_ref s box1 box2 = Some (length (box_objs s), ?s')"
    using assms(2,3) l rs
    by (simp add: combine_ref_def get_box_items_ref_def list_new_def Box_new_def)
  have it: "items_of ?s1 (length (list_objs s)) = items_of s ?l1 @ items_of s ?l2"
    by (simp add: items_of_def article_of_def)
  have new: "box_of ?s' (length (box_objs s)) = combine (box_of s box1) (box_of s box2)"
    using it
    by (simp add: box_of_def combine_def Box_init_def get_box_items_def items_of_def article_of_def)
  have old: "box_of ?s' b = box_of s b" if "b < length (box_objs s)" for b
    using that store_ok_box[OF assms(1) that]
    by (simp add: box_of_def items_of_def article_of_def nth_append)
  show ?thesis
    using c new old[OF assms(2)] old[OF assms(3)] assms(2,3)
    by (auto simp: combine_def Box_init_def get_box_items_def get_total_weight_in_grams_def
        box_inv_def)
qed

theorem combine_new_box_witness:
  "\<exists>r s'. combine_ref
       \<lparr>article_objs = [5, 7], list_objs = [[0], [1]],
        box_objs = [\<lparr>box_items_ref = 0, cached_total = 5\<rparr>,
                    \<lparr>box_items_ref = 1, cached_total = 7\<rparr>]\<rparr> 0 1 = Some (r, s') \<and>
      r = 2 \<and>
      get_box_items (box_of s' r) = [Article 0 5, Article 1 7] \<and>
      get_total_weight_in_grams (box_of s' r) = 12 \<and>
      box_of s' 0 = \<lparr>box_items = [Article 0 5], total_weight_in_grams = 5\<rparr> \<and>
      box_of s' 1 = \<lparr>box_items = [Article 1 7], total_weight_in_grams = 7\<rparr>"
proof -
  let ?s = "\<lparr>article_objs = [5, 7], list_objs = [[0], [1]],
        box_objs = [\<lparr>box_items_ref = 0, cached_total = 5\<rparr>,
                    \<lparr>box_items_ref = 1, cached_total = 7\<rparr>]\<rparr>"
  have h: "store_ok ?s" "0 < length (box_objs ?s)" "1 < length (box_objs ?s)"
    by (simp_all add: store_ok_def)
  have inv: "box_inv (box_of ?s 0)" "box_inv (box_of ?s 1)"
    by (simp_all add: box_inv_def box_of_def items_of_def article_of_def)
  from combine_new_box[OF h] obtain r s' where
    c: "combine_ref ?s 0 1 = Some (r, s')" "r = length (box_objs ?s)"
    and items: "get_box_items (box_of s' r) = get_box_items (box_of ?s 0) @ get_box_items (box_of ?s 1)"
    and total: "box_inv (box_of ?s 0) \<and> box_inv (box_of ?s 1) \<longrightarrow>
              get_total_weight_in_grams (box_of s' r) =
                get_total_weight_in_grams (box_of ?s 0) + get_total_weight_in_grams (box_of ?s 1)"
    and old: "box_of s' 0 = box_of ?s 0" "box_of s' 1 = box_of ?s 1"
    by blast
  from total inv have "get_total_weight_in_grams (box_of s' r) = 12"
    by (simp add: box_of_def items_of_def article_of_def get_total_weight_in_grams_def)
  moreover from items have "get_box_items (box_of s' r) = [Article 0 5, Article 1 7]"
    by (simp add: box_of_def items_of_def article_of_def get_box_items_def)
  moreover from c(2) have "r = 2" by simp
  moreover have "box_of ?s 0 = \<lparr>box_items = [Article 0 5], total_weight_in_grams = 5\<rparr>"
    "box_of ?s 1 = \<lparr>box_items = [Article 1 7], total_weight_in_grams = 7\<rparr>"
    by (simp_all add: box_of_def items_of_def article_of_def)
  ultimately show ?thesis using c(1) old by simp
qed

text \<open>
  C8 as it was stated fails where the total of a box is not the sum of its items. Two
  boxes built on one list, and an article of weight 7 added to the first: the list now
  holds both articles, the totals are 12 and 5, and the box that \<open>Box.combine\<close> returns
  has total weight 24, not 17.
\<close>

theorem combine_shared_list_total:
  "run [Call_Article 5, Call_Article 7, Call_list [0], Call_Box 0, Call_Box 0,
        Call_Box_add_article 0 1] empty_store =
     Some \<lparr>article_objs = [5, 7], list_objs = [[0, 1]],
           box_objs = [\<lparr>box_items_ref = 0, cached_total = 12\<rparr>,
                       \<lparr>box_items_ref = 0, cached_total = 5\<rparr>]\<rparr> \<and>
   combine_ref \<lparr>article_objs = [5, 7], list_objs = [[0, 1]],
           box_objs = [\<lparr>box_items_ref = 0, cached_total = 12\<rparr>,
                       \<lparr>box_items_ref = 0, cached_total = 5\<rparr>]\<rparr> 0 1 =
     Some (2, \<lparr>article_objs = [5, 7], list_objs = [[0, 1], [0, 1, 0, 1]],
           box_objs = [\<lparr>box_items_ref = 0, cached_total = 12\<rparr>,
                       \<lparr>box_items_ref = 0, cached_total = 5\<rparr>,
                       \<lparr>box_items_ref = 1, cached_total = 24\<rparr>]\<rparr>) \<and>
   get_total_weight_in_grams (box_of \<lparr>article_objs = [5, 7], list_objs = [[0, 1], [0, 1, 0, 1]],
           box_objs = [\<lparr>box_items_ref = 0, cached_total = 12\<rparr>,
                       \<lparr>box_items_ref = 0, cached_total = 5\<rparr>,
                       \<lparr>box_items_ref = 1, cached_total = 24\<rparr>]\<rparr> 2) \<noteq>
   get_total_weight_in_grams (box_of \<lparr>article_objs = [5, 7], list_objs = [[0, 1]],
           box_objs = [\<lparr>box_items_ref = 0, cached_total = 12\<rparr>,
                       \<lparr>box_items_ref = 0, cached_total = 5\<rparr>]\<rparr> 0) +
   get_total_weight_in_grams (box_of \<lparr>article_objs = [5, 7], list_objs = [[0, 1]],
           box_objs = [\<lparr>box_items_ref = 0, cached_total = 12\<rparr>,
                       \<lparr>box_items_ref = 0, cached_total = 5\<rparr>]\<rparr> 1)"
  by code_simp

text \<open>
  C9. The constructor of Article raises the ValueError of weights when the weight is 0 or
  negative. For a positive weight it returns a new Article object whose
  \<open>get_weight_in_grams\<close> is that weight, and after every sequence of calls of the
  constructors and methods of Article, list and Box that follows, it still is: the
  object is never mutated.
\<close>

theorem Article_weight_never_changes:
  "(weight_in_grams \<le> 0 \<longrightarrow>
      Article_new s weight_in_grams = Inl (ValueError_weight weight_in_grams)) \<and>
   (0 < weight_in_grams \<longrightarrow>
      (\<exists>r s'. Article_new s weight_in_grams = Inr (r, s') \<and>
         get_weight_in_grams_ref s r = None \<and>
         get_weight_in_grams_ref s' r = Some weight_in_grams \<and>
         article_of s' r = Article r weight_in_grams \<and>
         (\<forall>calls s''. run calls s' = Some s'' \<longrightarrow>
            get_weight_in_grams_ref s'' r = Some weight_in_grams \<and>
            article_of s'' r = Article r weight_in_grams)))"
proof (intro conjI impI)
  assume "weight_in_grams \<le> 0"
  then show "Article_new s weight_in_grams = Inl (ValueError_weight weight_in_grams)"
    by (simp add: Article_new_def Article_init_def)
next
  assume pos: "0 < weight_in_grams"
  let ?r = "length (article_objs s)"
  let ?s' = "s\<lparr>article_objs := article_objs s @ [weight_in_grams]\<rparr>"
  have new: "Article_new s weight_in_grams = Inr (?r, ?s')"
    using pos by (simp add: Article_new_def Article_init_def)
  have w: "get_weight_in_grams_ref ?s' ?r = Some weight_in_grams"
    by (simp add: get_weight_in_grams_ref_def)
  have "get_weight_in_grams_ref s'' ?r = Some weight_in_grams \<and>
        article_of s'' ?r = Article ?r weight_in_grams"
    if "run calls ?s' = Some s''" for calls s''
    using run_get_weight_in_grams[OF that w]
    by (auto simp: get_weight_in_grams_ref_def article_of_def split: if_splits)
  with new w show "\<exists>r s'. Article_new s weight_in_grams = Inr (r, s') \<and>
         get_weight_in_grams_ref s r = None \<and>
         get_weight_in_grams_ref s' r = Some weight_in_grams \<and>
         article_of s' r = Article r weight_in_grams \<and>
         (\<forall>calls s''. run calls s' = Some s'' \<longrightarrow>
            get_weight_in_grams_ref s'' r = Some weight_in_grams \<and>
            article_of s'' r = Article r weight_in_grams)"
    by (auto simp: get_weight_in_grams_ref_def article_of_def)
qed

theorem Article_weight_never_changes_witness:
  "Article_new empty_store 0 = Inl (ValueError_weight 0) \<and>
   Article_new empty_store (- 4) = Inl (ValueError_weight (- 4)) \<and>
   Article_new empty_store 3 = Inr (0, \<lparr>article_objs = [3], list_objs = [], box_objs = []\<rparr>) \<and>
   run [Call_list [0], Call_Box 0, Call_Article 4, Call_Box_add_article 0 1, Call_Box_combine 0 0]
     \<lparr>article_objs = [3], list_objs = [], box_objs = []\<rparr> =
     Some \<lparr>article_objs = [3, 4], list_objs = [[0, 1], [0, 1, 0, 1]],
           box_objs = [\<lparr>box_items_ref = 0, cached_total = 7\<rparr>,
                       \<lparr>box_items_ref = 1, cached_total = 14\<rparr>]\<rparr> \<and>
   get_weight_in_grams_ref \<lparr>article_objs = [3, 4], list_objs = [[0, 1], [0, 1, 0, 1]],
           box_objs = [\<lparr>box_items_ref = 0, cached_total = 7\<rparr>,
                       \<lparr>box_items_ref = 1, cached_total = 14\<rparr>]\<rparr> 0 = Some 3"
proof -
  let ?s' = "\<lparr>article_objs = [3], list_objs = [], box_objs = []\<rparr>"
  let ?s'' = "\<lparr>article_objs = [3, 4], list_objs = [[0, 1], [0, 1, 0, 1]],
           box_objs = [\<lparr>box_items_ref = 0, cached_total = 7\<rparr>,
                       \<lparr>box_items_ref = 1, cached_total = 14\<rparr>]\<rparr>"
  let ?calls = "[Call_list [0], Call_Box 0, Call_Article 4, Call_Box_add_article 0 1,
                 Call_Box_combine 0 0]"
  have new: "Article_new empty_store 3 = Inr (0, ?s')"
    by (simp add: Article_new_def Article_init_def empty_store_def)
  have r: "run ?calls ?s' = Some ?s''"
    by code_simp
  from Article_weight_never_changes[of 0 empty_store]
  have e0: "Article_new empty_store 0 = Inl (ValueError_weight 0)" by simp
  from Article_weight_never_changes[of "- 4" empty_store]
  have e4: "Article_new empty_store (- 4) = Inl (ValueError_weight (- 4))" by simp
  have pos: "(0::int) < 3" by simp
  from Article_weight_never_changes[of 3 empty_store, THEN conjunct2, rule_format, OF pos]
  obtain r0 s0 where n: "Article_new empty_store 3 = Inr (r0, s0)"
    and f: "\<forall>calls s''. run calls s0 = Some s'' \<longrightarrow>
              get_weight_in_grams_ref s'' r0 = Some 3 \<and> article_of s'' r0 = Article r0 3"
    by blast
  from n new have "r0 = 0" "s0 = ?s'" by simp_all
  with f r have "get_weight_in_grams_ref ?s'' 0 = Some 3" by blast
  with new r e0 e4 show ?thesis by simp
qed

text \<open>
  C10. For every non-empty list of articles, all of positive weight, and every number of
  boxes that is at least 1, the boxes that \<open>pack\<close> returns are in descending order of
  total weight (each box is at least as heavy as the boxes after it).
\<close>

theorem pack_descending:
  assumes "articles \<noteq> []" "1 \<le> number_of_boxes" "\<forall>a\<in>set articles. 0 < get_weight_in_grams a"
  shows "\<exists>bs. pack articles number_of_boxes = Inr bs \<and>
           sorted_wrt (\<lambda>x y. x \<ge> y) (map get_total_weight_in_grams bs)"
  using pack_props[OF assms(2,3)] by (auto simp: descending_def)

theorem pack_descending_witness:
  "\<exists>bs. pack [Article 0 5, Article 1 3, Article 2 5] 3 = Inr bs \<and>
      sorted_wrt (\<lambda>x y. x \<ge> y) (map get_total_weight_in_grams bs)"
  using pack_descending[of "[Article 0 5, Article 1 3, Article 2 5]" 3] by simp

end
